theory Spec2Isabelle
  imports Main "HOL-Library.Multiset"
begin

section \<open>seeker.py: the file seeker\<close>

text \<open>
  Python's \<^verbatim>\<open>str.lstrip(chars)\<close> drops characters from the left for as long as they
  belong to \<open>chars\<close>; \<^verbatim>\<open>sanitize_extension\<close> is \<^verbatim>\<open>extension.lstrip(".")\<close>.
\<close>

fun lstrip :: "string \<Rightarrow> string \<Rightarrow> string" where
  "lstrip chars [] = []"
| "lstrip chars (c # cs) = (if c \<in> set chars then lstrip chars cs else c # cs)"

definition sanitize_extension :: "string \<Rightarrow> string" where
  "sanitize_extension extension = lstrip ''.'' extension"

section \<open>wing.py: the website status checker\<close>

subsection \<open>Loading the URL list\<close>

text \<open>
  The characters below 256 that \<^verbatim>\<open>str.strip()\<close> without an argument removes
  (those for which \<^verbatim>\<open>str.isspace\<close> holds).
\<close>

definition whitespace :: "char list" where
  "whitespace = [CHR 0x09, CHR 0x0A, CHR 0x0B, CHR 0x0C, CHR 0x0D, CHR 0x1C, CHR 0x1D,
     CHR 0x1E, CHR 0x1F, CHR 0x20, CHR 0x85, CHR 0xA0]"

definition isspace :: "char \<Rightarrow> bool" where
  "isspace c = (c \<in> set whitespace)"

definition strip :: "string \<Rightarrow> string" where
  "strip s = rev (dropWhile isspace (rev (dropWhile isspace s)))"

text \<open>
  Exceptions are values. Every constructor stands for a subclass of Python's
  \<^verbatim>\<open>Exception\<close>; \<open>HTTPError\<close> is \<^verbatim>\<open>requests.exceptions.HTTPError\<close>.
\<close>

datatype exn =
  HTTPError | Timeout | ConnectionError | InvalidURL | OSError | ValueError | UnicodeDecodeError

text \<open>
  The file system as the program sees it. For a name, \<^verbatim>\<open>open\<close> raises (an
  \<open>OSError\<close> for a missing file, a \<open>ValueError\<close> for a name with a NUL character); or
  the file opens and iterating over it raises (a \<open>UnicodeDecodeError\<close> for bytes
  that are no text, an \<open>OSError\<close> for a failing read); or iterating yields all its
  lines. The list comprehension of \<^verbatim>\<open>load_urls_from_file\<close> handles none of these
  exceptions, and one raised while iterating leaves no partial list.
\<close>

datatype source_file = Unopenable exn | Unreadable exn | Readable "string list"

type_synonym fs = "string \<Rightarrow> source_file"

definition load_urls_from_file :: "fs \<Rightarrow> string \<Rightarrow> exn + string list" where
  "load_urls_from_file files filename =
     (case files filename of
        Unopenable e \<Rightarrow> Inl e
      | Unreadable e \<Rightarrow> Inl e
      | Readable lines \<Rightarrow> Inr (map strip lines))"

subsection \<open>The queue\<close>

text \<open>
  \<^verbatim>\<open>queue.Queue\<close>: the pending items in FIFO order and the counter of unfinished
  tasks, which \<^verbatim>\<open>put\<close> increments, \<^verbatim>\<open>task_done\<close> decrements and \<^verbatim>\<open>join\<close> waits on.
\<close>

record py_queue =
  queue :: "string list"
  unfinished_tasks :: nat

definition Queue :: py_queue where
  "Queue = \<lparr>queue = [], unfinished_tasks = 0\<rparr>"

definition q_put :: "py_queue \<Rightarrow> string \<Rightarrow> py_queue" where
  "q_put q item = q\<lparr>queue := queue q @ [item], unfinished_tasks := Suc (unfinished_tasks q)\<rparr>"

definition q_empty :: "py_queue \<Rightarrow> bool" where
  "q_empty q = (queue q = [])"

text \<open>A blocking \<^verbatim>\<open>get\<close>: \<open>None\<close> means that the caller waits.\<close>

definition q_get :: "py_queue \<Rightarrow> (string \<times> py_queue) option" where
  "q_get q = (case queue q of [] \<Rightarrow> None | item # rest \<Rightarrow> Some (item, q\<lparr>queue := rest\<rparr>))"

text \<open>\<^verbatim>\<open>task_done\<close> raises \<^verbatim>\<open>ValueError\<close> when called more often than items were put.\<close>

definition q_task_done :: "py_queue \<Rightarrow> exn + py_queue" where
  "q_task_done q =
     (if unfinished_tasks q = 0 then Inl ValueError
      else Inr (q\<lparr>unfinished_tasks := unfinished_tasks q - 1\<rparr>))"

text \<open>\<^verbatim>\<open>join\<close> returns once no task is unfinished.\<close>

definition q_join_ready :: "py_queue \<Rightarrow> bool" where
  "q_join_ready q = (unfinished_tasks q = 0)"

fun put_all :: "py_queue \<Rightarrow> string list \<Rightarrow> py_queue" where
  "put_all q [] = q"
| "put_all q (url # urls) = put_all (q_put q url) urls"

definition get_queue :: "string list \<Rightarrow> py_queue" where
  "get_queue urls = put_all Queue urls"

subsection \<open>One request\<close>

text \<open>
  The network is a parameter: \<^verbatim>\<open>requests.get(url, timeout=5)\<close> raises or returns a
  response, of which only the status code matters. \<^verbatim>\<open>raise_for_status\<close> raises
  \<open>HTTPError\<close> for the codes from 400 to 599. What a request raises in a worker
  thread is an \<^verbatim>\<open>Exception\<close>: \<^verbatim>\<open>KeyboardInterrupt\<close> reaches the main thread only.
  The 5 seconds of the timeout are not modelled; a request that times out raises
  \<open>Timeout\<close>.
\<close>

type_synonym net = "string \<Rightarrow> exn + nat"

definition raise_for_status :: "nat \<Rightarrow> exn + unit" where
  "raise_for_status status_code =
     (if 400 \<le> status_code \<and> status_code < 600 then Inl HTTPError else Inr ())"

definition try_body :: "net \<Rightarrow> string \<Rightarrow> exn + unit" where
  "try_body net url =
     (case net url of
        Inl e \<Rightarrow> Inl e
      | Inr status_code \<Rightarrow> raise_for_status status_code)"

text \<open>
  The two output streams, each as the sequence of strings that the program has passed to
  its \<^verbatim>\<open>write\<close>, whether or not the stream accepted them.
\<close>

record streams =
  stdout :: "string list"
  stderr :: "string list"

text \<open>
  A stream may refuse a line: \<^verbatim>\<open>write\<close> or \<^verbatim>\<open>flush\<close> raises for a closed stream or
  a broken pipe. What the streams do is a parameter like the network: for a stream and
  the strings passed to it up to and including the present one, \<open>sink\<close> gives the
  exception that the \<^verbatim>\<open>write\<close> and \<^verbatim>\<open>flush\<close> of the present one raise, if any.
\<close>

datatype stream = Stdout | Stderr

type_synonym sinks = "stream \<Rightarrow> string list \<Rightarrow> exn option"

definition write_flush :: "sinks \<Rightarrow> stream \<Rightarrow> string \<Rightarrow> streams \<Rightarrow> exn option \<times> streams" where
  "write_flush sink st line io =
     (case st of
        Stdout \<Rightarrow> (sink Stdout (stdout io @ [line]), io\<lparr>stdout := stdout io @ [line]\<rparr>)
      | Stderr \<Rightarrow> (sink Stderr (stderr io @ [line]), io\<lparr>stderr := stderr io @ [line]\<rparr>))"

text \<open>
  The \<^verbatim>\<open>try\<close> statement of \<^verbatim>\<open>get_status\<close> without its \<^verbatim>\<open>finally\<close> clause. The
  \<^verbatim>\<open>except\<close> and \<^verbatim>\<open>else\<close> clauses are not protected: the result holds the exception
  that a \<^verbatim>\<open>write\<close> or \<^verbatim>\<open>flush\<close> in them raised, which leaves \<^verbatim>\<open>get_status\<close> once
  the \<^verbatim>\<open>finally\<close> clause has run.
\<close>

definition try_except_else :: "net \<Rightarrow> sinks \<Rightarrow> string \<Rightarrow> streams \<Rightarrow> exn option \<times> streams" where
  "try_except_else net sink url io =
     (case try_body net url of
        Inl HTTPError \<Rightarrow> write_flush sink Stderr (''HTTP error occurred for '' @ url @ [CHR 0x0A]) io
      | Inl _ \<Rightarrow> write_flush sink Stderr (''Error occurred for '' @ url @ [CHR 0x0A]) io
      | Inr _ \<Rightarrow> write_flush sink Stdout (''Successfully connected to '' @ url @ [CHR 0x0A]) io)"

subsection \<open>The worker and the pool as interleaved threads\<close>

text \<open>
  Where a worker thread stands in \<^verbatim>\<open>get_status\<close>: before the loop test, before
  \<^verbatim>\<open>q.get()\<close>, before the \<^verbatim>\<open>try\<close> statement with the URL it holds, before
  \<^verbatim>\<open>q.task_done()\<close> in the \<^verbatim>\<open>finally\<close> clause (with the exception that an
  \<^verbatim>\<open>except\<close> or \<^verbatim>\<open>else\<close> clause raised and that is raised again after the clause, if
  any), or terminated (by returning or by an exception that left the function).
\<close>

datatype wpc =
  LoopTest | QueueGet | Request string | TaskDone "exn option" | Returned | Raised exn

text \<open>
  Where the main thread stands in \<^verbatim>\<open>check_website_status\<close>: at the head of the
  spawning loop after \<open>k\<close> iterations, in \<^verbatim>\<open>url_queue.join()\<close>, in
  \<^verbatim>\<open>thread.join()\<close> for the thread of index \<open>k\<close>, or returned.
\<close>

datatype mpc = Spawn nat | QueueJoin | ThreadJoin nat | Finished

record state =
  url_queue :: py_queue
  out :: streams
  threads :: "wpc list"
  main_pc :: mpc

definition check_website_status_start :: "py_queue \<Rightarrow> state" where
  "check_website_status_start q =
     \<lparr>url_queue = q, out = \<lparr>stdout = [], stderr = []\<rparr>, threads = [], main_pc = Spawn 0\<rparr>"

text \<open>
  One atomic action of worker \<open>i\<close>; \<open>None\<close> when the thread does not exist, has
  terminated, or waits in \<^verbatim>\<open>q.get()\<close> on an empty queue. An exception of
  \<^verbatim>\<open>q.task_done()\<close> replaces the one that was to be raised again.
\<close>

definition get_status_step :: "net \<Rightarrow> sinks \<Rightarrow> nat \<Rightarrow> state \<Rightarrow> state option" where
  "get_status_step net sink i s =
     (if length (threads s) \<le> i then None
      else case threads s ! i of
        LoopTest \<Rightarrow>
          Some (s\<lparr>threads := (threads s)[i := (if q_empty (url_queue s) then Returned else QueueGet)]\<rparr>)
      | QueueGet \<Rightarrow>
          (case q_get (url_queue s) of
             None \<Rightarrow> None
           | Some (url, q') \<Rightarrow> Some (s\<lparr>url_queue := q', threads := (threads s)[i := Request url]\<rparr>))
      | Request url \<Rightarrow>
          Some (s\<lparr>out := snd (try_except_else net sink url (out s)),
                  threads := (threads s)[i := TaskDone (fst (try_except_else net sink url (out s)))]\<rparr>)
      | TaskDone raised \<Rightarrow>
          (case q_task_done (url_queue s) of
             Inl e \<Rightarrow> Some (s\<lparr>threads := (threads s)[i := Raised e]\<rparr>)
           | Inr q' \<Rightarrow>
               Some (s\<lparr>url_queue := q',
                       threads := (threads s)[i := (case raised of None \<Rightarrow> LoopTest | Some e \<Rightarrow> Raised e)]\<rparr>))
      | Returned \<Rightarrow> None
      | Raised e \<Rightarrow> None)"

definition terminated :: "wpc \<Rightarrow> bool" where
  "terminated w = (case w of Returned \<Rightarrow> True | Raised e \<Rightarrow> True | _ \<Rightarrow> False)"

text \<open>
  One atomic action of the main thread; \<open>None\<close> when it has returned or waits in a
  \<^verbatim>\<open>join\<close>. A started thread begins at its loop test.
\<close>

definition check_website_status_step :: "state \<Rightarrow> state option" where
  "check_website_status_step s =
     (case main_pc s of
        Spawn k \<Rightarrow>
          (if k < 4 then Some (s\<lparr>threads := threads s @ [LoopTest], main_pc := Spawn (Suc k)\<rparr>)
           else Some (s\<lparr>main_pc := QueueJoin\<rparr>))
      | QueueJoin \<Rightarrow>
          (if q_join_ready (url_queue s) then Some (s\<lparr>main_pc := ThreadJoin 0\<rparr>) else None)
      | ThreadJoin k \<Rightarrow>
          (if k < length (threads s)
           then (if terminated (threads s ! k) then Some (s\<lparr>main_pc := ThreadJoin (Suc k)\<rparr>) else None)
           else Some (s\<lparr>main_pc := Finished\<rparr>))
      | Finished \<Rightarrow> None)"

text \<open>The scheduler picks which thread acts next; a run follows a schedule.\<close>

datatype actor = MainThread | Worker nat

definition step :: "net \<Rightarrow> sinks \<Rightarrow> actor \<Rightarrow> state \<Rightarrow> state option" where
  "step net sink a s =
     (case a of
        MainThread \<Rightarrow> check_website_status_step s
      | Worker i \<Rightarrow> get_status_step net sink i s)"

fun exec :: "net \<Rightarrow> sinks \<Rightarrow> actor list \<Rightarrow> state \<Rightarrow> state option" where
  "exec net sink [] s = Some s"
| "exec net sink (a # sched) s =
     (case step net sink a s of None \<Rightarrow> None | Some s' \<Rightarrow> exec net sink sched s')"

text \<open>No thread can act: the run has ended or hangs.\<close>

definition actors :: "state \<Rightarrow> actor list" where
  "actors s = MainThread # map Worker [0..<length (threads s)]"

definition stuck :: "net \<Rightarrow> sinks \<Rightarrow> state \<Rightarrow> bool" where
  "stuck net sink s = list_all (\<lambda>a. step net sink a s = None) (actors s)"

text \<open>
  \<^verbatim>\<open>main\<close> up to the call of \<^verbatim>\<open>check_website_status\<close>, for the parsed argument
  \<^verbatim>\<open>args.input\<close>: an exception of \<^verbatim>\<open>load_urls_from_file\<close> is not caught.
\<close>

definition main :: "fs \<Rightarrow> string \<Rightarrow> exn + state" where
  "main files input =
     (case load_urls_from_file files input of
        Inl e \<Rightarrow> Inl e
      | Inr urls \<Rightarrow> Inr (check_website_status_start (get_queue urls)))"

subsection \<open>Bookkeeping for the proofs\<close>

text \<open>
  A worker between \<^verbatim>\<open>q.get()\<close> and \<^verbatim>\<open>q.task_done()\<close> has an item that is dequeued
  and not yet acknowledged; before the \<^verbatim>\<open>try\<close> statement it holds a URL whose line is
  not yet written.
\<close>

fun inflight :: "wpc \<Rightarrow> nat" where
  "inflight (Request url) = 1"
| "inflight (TaskDone raised) = 1"
| "inflight _ = 0"

fun holding :: "wpc \<Rightarrow> string list" where
  "holding (Request url) = [url]"
| "holding _ = []"

text \<open>No stream ever refuses a line.\<close>

definition accepting :: sinks where
  "accepting st issued = None"

text \<open>What handling one URL alone writes, and what a list of URLs is expected to write
  to one stream (\<open>stream\<close> is \<open>stdout\<close> or \<open>stderr\<close>).\<close>

definition written :: "net \<Rightarrow> string \<Rightarrow> streams" where
  "written net url = snd (try_except_else net accepting url \<lparr>stdout = [], stderr = []\<rparr>)"

definition expected :: "(streams \<Rightarrow> string list) \<Rightarrow> net \<Rightarrow> string list \<Rightarrow> string list" where
  "expected stream net urls = concat (map (\<lambda>url. stream (written net url)) urls)"

text \<open>The lines still owed to a stream: those of the URLs in the queue and of the URLs
  that workers hold.\<close>

definition owed :: "(streams \<Rightarrow> string list) \<Rightarrow> net \<Rightarrow> state \<Rightarrow> string multiset" where
  "owed stream net s =
     mset (expected stream net (queue (url_queue s)))
     + sum_list (map (\<lambda>w. mset (expected stream net (holding w))) (threads s))"

text \<open>Every item has been dequeued and acknowledged.\<close>

definition drained :: "state \<Rightarrow> bool" where
  "drained s = (queue (url_queue s) = [] \<and> list_all (\<lambda>w. inflight w = 0) (threads s))"

definition pool_ok :: "state \<Rightarrow> bool" where
  "pool_ok s =
     (case main_pc s of
        Spawn k \<Rightarrow> length (threads s) = k \<and> k \<le> 4
      | QueueJoin \<Rightarrow> length (threads s) = 4
      | ThreadJoin k \<Rightarrow> length (threads s) = 4 \<and> unfinished_tasks (url_queue s) = 0
          \<and> list_all terminated (take k (threads s))
      | Finished \<Rightarrow> length (threads s) = 4 \<and> unfinished_tasks (url_queue s) = 0
          \<and> list_all terminated (threads s))"

definition pool_inv :: "net \<Rightarrow> string list \<Rightarrow> state \<Rightarrow> bool" where
  "pool_inv net urls s =
     (unfinished_tasks (url_queue s) = length (queue (url_queue s)) + sum_list (map inflight (threads s))
      \<and> mset (stdout (out s)) + owed stdout net s = mset (expected stdout net urls)
      \<and> mset (stderr (out s)) + owed stderr net s = mset (expected stderr net urls)
      \<and> pool_ok s
      \<and> (Returned \<in> set (threads s) \<longrightarrow> queue (url_queue s) = []))"

text \<open>No worker has ended with an exception or is about to.\<close>

definition calm :: "state \<Rightarrow> bool" where
  "calm s = (\<forall>w \<in> set (threads s). \<forall>e. w \<noteq> Raised e \<and> w \<noteq> TaskDone (Some e))"

text \<open>A bound on the number of actions that can still happen.\<close>

fun wpc_weight :: "wpc \<Rightarrow> nat" where
  "wpc_weight LoopTest = 2"
| "wpc_weight QueueGet = 1"
| "wpc_weight (Request url) = 4"
| "wpc_weight (TaskDone raised) = 3"
| "wpc_weight Returned = 0"
| "wpc_weight (Raised e) = 0"

fun mpc_weight :: "mpc \<Rightarrow> nat \<Rightarrow> nat" where
  "mpc_weight (Spawn k) n = 4 * (4 - k) + n + 3"
| "mpc_weight QueueJoin n = n + 2"
| "mpc_weight (ThreadJoin k) n = n - k + 1"
| "mpc_weight Finished n = 0"

definition steps_left :: "state \<Rightarrow> nat" where
  "steps_left s =
     4 * length (queue (url_queue s)) + sum_list (map wpc_weight (threads s))
     + mpc_weight (main_pc s) (length (threads s))"

subsection \<open>Concrete inputs\<close>

text \<open>
  A file of three lines (a reachable URL, a string that is no URL, a blank line) beside
  a file that opens and cannot be decoded, a network that answers the URLs, a schedule
  under which the run completes, one under which it hangs, and two intermediate states;
  then a standard error stream that refuses every line, and a run of five failing URLs
  on it.
\<close>

definition demo_files :: fs where
  "demo_files name =
     (if CHR 0x00 \<in> set name then Unopenable ValueError
      else if name = ''urls.txt''
      then Readable [''http://example.com'' @ [CHR 0x0A], ''  not-a-url '' @ [CHR 0x0A], [CHR 0x0A]]
      else if name = ''urls.bin'' then Unreadable UnicodeDecodeError
      else Unopenable OSError)"

definition demo_net :: net where
  "demo_net url = (if url = ''http://example.com'' then Inr 200
     else if url = ''http://example.com/missing'' then Inr 404
     else Inl InvalidURL)"

definition demo_urls :: "string list" where
  "demo_urls = [''http://example.com'', ''not-a-url'', '''']"

definition demo_schedule :: "actor list" where
  "demo_schedule =
     [MainThread, MainThread, MainThread, MainThread, MainThread,
      Worker 0, Worker 1, Worker 2, Worker 0, Worker 1, Worker 2, Worker 3,
      Worker 1, Worker 0, Worker 2,
      Worker 0, Worker 1, Worker 2,
      Worker 0, Worker 1, Worker 2,
      MainThread, MainThread, MainThread, MainThread, MainThread, MainThread]"

definition demo_final :: state where
  "demo_final =
     \<lparr>url_queue = \<lparr>queue = [], unfinished_tasks = 0\<rparr>,
      out = \<lparr>stdout = [''Successfully connected to http://example.com'' @ [CHR 0x0A]],
             stderr = [''Error occurred for not-a-url'' @ [CHR 0x0A], ''Error occurred for '' @ [CHR 0x0A]]\<rparr>,
      threads = [Returned, Returned, Returned, Returned],
      main_pc = Finished\<rparr>"

definition hang_schedule :: "actor list" where
  "hang_schedule =
     [MainThread, MainThread, Worker 0, Worker 1, Worker 0, Worker 0, Worker 0, Worker 0,
      MainThread, MainThread, Worker 2, Worker 3, MainThread, MainThread, MainThread]"

definition hang_final :: state where
  "hang_final =
     \<lparr>url_queue = \<lparr>queue = [], unfinished_tasks = 0\<rparr>,
      out = \<lparr>stdout = [''Successfully connected to http://example.com'' @ [CHR 0x0A]], stderr = []\<rparr>,
      threads = [Returned, QueueGet, Returned, Returned],
      main_pc = ThreadJoin 1\<rparr>"

definition holding_state :: "string \<Rightarrow> state" where
  "holding_state url =
     \<lparr>url_queue = \<lparr>queue = [], unfinished_tasks = 1\<rparr>, out = \<lparr>stdout = [], stderr = []\<rparr>,
      threads = [Request url], main_pc = Spawn 1\<rparr>"

definition waiting_schedule :: "actor list" where
  "waiting_schedule =
     [MainThread, MainThread, MainThread, MainThread, MainThread, Worker 0, Worker 0]"

definition waiting_state :: state where
  "waiting_state =
     \<lparr>url_queue = \<lparr>queue = [''not-a-url'', []], unfinished_tasks = 3\<rparr>,
      out = \<lparr>stdout = [], stderr = []\<rparr>,
      threads = [Request ''http://example.com'', LoopTest, LoopTest, LoopTest],
      main_pc = QueueJoin\<rparr>"

definition broken_pipe :: sinks where
  "broken_pipe st issued = (case st of Stdout \<Rightarrow> None | Stderr \<Rightarrow> Some OSError)"

definition failing_urls :: "string list" where
  "failing_urls = [''u1'', ''u2'', ''u3'', ''u4'', ''u5'']"

definition abort_schedule :: "actor list" where
  "abort_schedule =
     [MainThread, MainThread, MainThread, MainThread, MainThread,
      Worker 0, Worker 0, Worker 0, Worker 0,
      Worker 1, Worker 1, Worker 1, Worker 1,
      Worker 2, Worker 2, Worker 2, Worker 2,
      Worker 3, Worker 3, Worker 3, Worker 3]"

definition abort_final :: state where
  "abort_final =
     \<lparr>url_queue = \<lparr>queue = [''u5''], unfinished_tasks = 1\<rparr>,
      out = \<lparr>stdout = [],
             stderr = [''Error occurred for u1'' @ [CHR 0x0A], ''Error occurred for u2'' @ [CHR 0x0A],
                       ''Error occurred for u3'' @ [CHR 0x0A], ''Error occurred for u4'' @ [CHR 0x0A]]\<rparr>,
      threads = [Raised OSError, Raised OSError, Raised OSError, Raised OSError],
      main_pc = QueueJoin\<rparr>"

section \<open>Properties of the sequential parts\<close>

lemma lstrip_dropWhile: "lstrip chars s = dropWhile (\<lambda>c. c \<in> set chars) s"
  by (induction s) auto

lemma lstrip_decompose: "\<exists>n. s = replicate n CHR ''.'' @ lstrip ''.'' s"
proof (induction s)
  case Nil
  show ?case by simp
next
  case (Cons c s)
  show ?case
  proof (cases "c = CHR ''.''")
    case True
    from Cons obtain n where "s = replicate n CHR ''.'' @ lstrip ''.'' s" by blast
    then have "c # s = replicate (Suc n) CHR ''.'' @ lstrip ''.'' (c # s)"
      using True by simp
    then show ?thesis by blast
  next
    case False
    then have "c # s = replicate 0 CHR ''.'' @ lstrip ''.'' (c # s)" by simp
    then show ?thesis by blast
  qed
qed

lemma lstrip_no_leading: "takeWhile (\<lambda>c. c \<in> set chars) (lstrip chars s) = []"
  by (induction s) auto

lemma lstrip_idem: "lstrip chars (lstrip chars s) = lstrip chars s"
  by (induction s) auto

text \<open>
  Claim C10. \<open>sanitize_extension\<close> removes every leading dot: its argument is some
  number of dots followed by the result, and the result does not start with a dot. It is
  idempotent, and \<open>.py\<close>, \<open>..py\<close> and \<open>py\<close> all sanitize to \<open>py\<close>.
\<close>

theorem sanitize_extension_strips_all_leading_dots:
  "(\<exists>n. s = replicate n CHR ''.'' @ sanitize_extension s)
   \<and> takeWhile (\<lambda>c. c = CHR ''.'') (sanitize_extension s) = []
   \<and> sanitize_extension (sanitize_extension s) = sanitize_extension s
   \<and> sanitize_extension ''.py'' = ''py''
   \<and> sanitize_extension ''..py'' = ''py''
   \<and> sanitize_extension ''py'' = ''py''"
proof -
  have a: "\<exists>n. s = replicate n CHR ''.'' @ sanitize_extension s"
    unfolding sanitize_extension_def by (rule lstrip_decompose)
  have b: "takeWhile (\<lambda>c. c = CHR ''.'') (sanitize_extension s) = []"
    using lstrip_no_leading [of "''.''" s] by (simp add: sanitize_extension_def)
  have c: "sanitize_extension (sanitize_extension s) = sanitize_extension s"
    by (simp add: sanitize_extension_def lstrip_idem)
  have d: "sanitize_extension ''.py'' = ''py''" "sanitize_extension ''..py'' = ''py''"
    "sanitize_extension ''py'' = ''py''"
    by (simp_all add: sanitize_extension_def)
  from a b c d show ?thesis by blast
qed


section \<open>Trimming and the queue\<close>


lemma put_all_queue: "queue (put_all q urls) = queue q @ urls"
  by (induction urls arbitrary: q) (simp_all add: q_put_def)

lemma put_all_unfinished: "unfinished_tasks (put_all q urls) = unfinished_tasks q + length urls"
  by (induction urls arbitrary: q) (simp_all add: q_put_def)

lemma get_queue_simps: "queue (get_queue urls) = urls" "unfinished_tasks (get_queue urls) = length urls"
  by (simp_all add: get_queue_def put_all_queue put_all_unfinished Queue_def)

lemma rev_split: "t = rev (dropWhile P (rev t)) @ rev (takeWhile P (rev t))"
  by (metis takeWhile_dropWhile_id rev_append rev_rev_ident)

lemma strip_decompose:
  "\<exists>a b. s = a @ strip s @ b \<and> list_all isspace a \<and> list_all isspace b"
proof -
  let ?t = "dropWhile isspace s"
  have 1: "s = takeWhile isspace s @ ?t" by simp
  have 2: "?t = strip s @ rev (takeWhile isspace (rev ?t))"
    unfolding strip_def by (rule rev_split)
  have 3: "list_all isspace (takeWhile isspace s)"
    by (simp add: list_all_iff) (meson set_takeWhileD)
  have 4: "list_all isspace (rev (takeWhile isspace (rev ?t)))"
    by (simp add: list_all_iff) (meson set_takeWhileD)
  from 1 2 have "s = takeWhile isspace s @ strip s @ rev (takeWhile isspace (rev ?t))" by simp
  with 3 4 show ?thesis by blast
qed

lemma strip_last: "strip s \<noteq> [] \<Longrightarrow> \<not> isspace (last (strip s))"
  unfolding strip_def by (simp add: last_rev hd_dropWhile)

lemma strip_hd: assumes "strip s \<noteq> []" shows "\<not> isspace (hd (strip s))"
proof -
  let ?t = "dropWhile isspace s"
  have 2: "?t = strip s @ rev (takeWhile isspace (rev ?t))"
    unfolding strip_def by (rule rev_split)
  with assms have "?t \<noteq> []" by (metis append_is_Nil_conv)
  then have "\<not> isspace (hd ?t)" by (rule hd_dropWhile)
  moreover from 2 assms have "hd ?t = hd (strip s)" by (metis hd_append2)
  ultimately show ?thesis by simp
qed

lemma strip_blank: assumes "list_all isspace s" shows "strip s = []"
proof -
  from assms have a: "dropWhile isspace s = []" by (simp add: list_all_iff)
  show ?thesis unfolding strip_def a by simp
qed

section \<open>The invariant of the pool\<close>

lemma sum_list_map_update:
  fixes f :: "'a \<Rightarrow> 'b::comm_monoid_add"
  shows "i < length ts \<Longrightarrow> sum_list (map f (ts[i := w])) + f (ts ! i) = sum_list (map f ts) + f w"
proof (induction ts arbitrary: i)
  case Nil
  then show ?case by simp
next
  case (Cons t ts)
  show ?case
  proof (cases i)
    case 0
    then show ?thesis by (simp add: ac_simps)
  next
    case (Suc j)
    with Cons.prems have "j < length ts" by simp
    from Cons.IH [OF this] show ?thesis using Suc by (simp add: ac_simps)
  qed
qed

lemma try_except_else_stdout:
  "stdout (snd (try_except_else net sink url io)) = stdout io @ stdout (written net url)"
  by (simp add: try_except_else_def write_flush_def written_def split: sum.splits exn.splits)

lemma try_except_else_stderr:
  "stderr (snd (try_except_else net sink url io)) = stderr io @ stderr (written net url)"
  by (simp add: try_except_else_def write_flush_def written_def split: sum.splits exn.splits)

lemma try_except_else_accepting: "fst (try_except_else net accepting url io) = None"
  by (simp add: try_except_else_def write_flush_def accepting_def split: sum.splits exn.splits)

lemma written_one_line:
  "length (stdout (written net url)) + length (stderr (written net url)) = 1"
  by (simp add: try_except_else_def write_flush_def written_def split: sum.splits exn.splits)

lemma expected_simps [simp]:
  "expected stream net [] = []"
  "expected stream net (u # us) = stream (written net u) @ expected stream net us"
  "expected stream net (us @ vs) = expected stream net us @ expected stream net vs"
  by (simp_all add: expected_def)

lemma inv_start: "pool_inv net urls (check_website_status_start (get_queue urls))"
  by (simp add: pool_inv_def check_website_status_start_def get_queue_simps owed_def pool_ok_def)

lemma inv_main_step:
  assumes "pool_inv net urls s" and "check_website_status_step s = Some s'"
  shows "pool_inv net urls s'"
proof (cases "main_pc s")
  case (Spawn k)
  with assms show ?thesis
    by (auto simp: pool_inv_def check_website_status_step_def owed_def pool_ok_def split: if_splits)
next
  case QueueJoin
  with assms show ?thesis
    by (auto simp: pool_inv_def check_website_status_step_def owed_def pool_ok_def q_join_ready_def split: if_splits)
next
  case (ThreadJoin k)
  with assms show ?thesis
    by (auto simp: pool_inv_def check_website_status_step_def owed_def pool_ok_def take_Suc_conv_app_nth split: if_splits)
next
  case Finished
  with assms show ?thesis by (simp add: check_website_status_step_def)
qed

lemma not_terminated_beyond:
  assumes "list_all terminated (take k ts)" and "i < length ts" and "\<not> terminated (ts ! i)"
  shows "k \<le> i"
proof (rule ccontr)
  assume "\<not> k \<le> i"
  then have "i < k" by simp
  with assms(2) have "take k ts ! i = ts ! i" and "i < length (take k ts)" by simp_all
  with assms(1) have "terminated (ts ! i)" by (metis list_all_length)
  with assms(3) show False by simp
qed

lemma pool_ok_update:
  assumes "pool_ok s" and "i < length (threads s)" and "\<not> terminated (threads s ! i)"
    and "unfinished_tasks (url_queue s) = 0 \<Longrightarrow> unfinished_tasks q' = 0"
  shows "pool_ok (s\<lparr>url_queue := q', threads := (threads s)[i := w]\<rparr>)"
proof (cases "main_pc s")
  case (Spawn k)
  with assms show ?thesis by (simp add: pool_ok_def)
next
  case QueueJoin
  with assms show ?thesis by (simp add: pool_ok_def)
next
  case (ThreadJoin k)
  with assms have "list_all terminated (take k (threads s))" by (simp add: pool_ok_def)
  from not_terminated_beyond [OF this assms(2,3)] have "k \<le> i" .
  with ThreadJoin assms show ?thesis by (simp add: pool_ok_def)
next
  case Finished
  with assms have "list_all terminated (threads s)" by (simp add: pool_ok_def)
  with assms(2,3) have False by (metis list_all_length)
  then show ?thesis ..
qed

lemma pool_ok_out [simp]: "pool_ok (s\<lparr>out := io\<rparr>) = pool_ok s"
  by (cases "main_pc s") (simp_all add: pool_ok_def)

lemma pool_ok_threads:
  assumes "pool_ok s" and "i < length (threads s)" and "\<not> terminated (threads s ! i)"
  shows "pool_ok (s\<lparr>threads := (threads s)[i := w]\<rparr>)"
  using pool_ok_update [OF assms, of "url_queue s" w] by simp

lemma in_set_update: "x \<in> set (ts[i := w]) \<Longrightarrow> x = w \<or> x \<in> set ts"
  using set_update_subset_insert [of ts i w] by auto

lemma task_done_possible:
  assumes I: "pool_inv net urls s" and i: "i < length (threads s)"
    and t: "threads s ! i = TaskDone raised"
  shows "unfinished_tasks (url_queue s) \<noteq> 0"
proof -
  have "inflight (threads s ! i) \<le> sum_list (map inflight (threads s))"
    using i by (simp add: member_le_sum_list)
  then have "1 \<le> sum_list (map inflight (threads s))" using t by simp
  moreover from I have "unfinished_tasks (url_queue s)
      = length (queue (url_queue s)) + sum_list (map inflight (threads s))"
    unfolding pool_inv_def by (rule conjunct1)
  ultimately show ?thesis by arith
qed

lemma inv_worker_step:
  assumes I: "pool_inv net urls s" and st: "get_status_step net sink i s = Some s'"
  shows "pool_inv net urls s'"
proof -
  from st have i: "i < length (threads s)"
    by (simp add: get_status_step_def split: if_splits)
  note upd = sum_list_map_update [OF i]
  show ?thesis
  proof (cases "threads s ! i")
    case LoopTest
    let ?w = "if q_empty (url_queue s) then Returned else QueueGet"
    from st i LoopTest have s': "s' = s\<lparr>threads := (threads s)[i := ?w]\<rparr>"
      by (simp add: get_status_step_def)
    have nt: "\<not> terminated (threads s ! i)" using LoopTest by (simp add: terminated_def)
    have 1: "sum_list (map inflight (threads s')) = sum_list (map inflight (threads s))"
      using upd [of inflight ?w] LoopTest s' by simp
    have 2: "owed stream net s' = owed stream net s" for stream
      using upd [of "\<lambda>w. mset (expected stream net (holding w))" ?w] LoopTest s'
      by (simp add: owed_def)
    have 3: "pool_ok s'" unfolding s' using I nt i by (intro pool_ok_threads) (simp_all add: pool_inv_def)
    have 5: "Returned \<in> set (threads s') \<longrightarrow> queue (url_queue s') = []"
      using I s' by (auto simp: pool_inv_def q_empty_def dest!: in_set_update split: if_splits)
    from I 1 2 3 5 show ?thesis by (simp add: pool_inv_def s')
  next
    case QueueGet
    from st i QueueGet obtain url rest where q: "queue (url_queue s) = url # rest"
      and s': "s' = s\<lparr>url_queue := (url_queue s)\<lparr>queue := rest\<rparr>, threads := (threads s)[i := Request url]\<rparr>"
      by (auto simp: get_status_step_def q_get_def split: list.splits)
    have nt: "\<not> terminated (threads s ! i)" using QueueGet by (simp add: terminated_def)
    have 1: "sum_list (map inflight (threads s')) = Suc (sum_list (map inflight (threads s)))"
      using upd [of inflight "Request url"] QueueGet s' by simp
    have 2: "owed stream net s' = owed stream net s" for stream
      using upd [of "\<lambda>w. mset (expected stream net (holding w))" "Request url"] QueueGet s' q
      by (simp add: owed_def)
    have 3: "pool_ok s'" unfolding s' using I nt i by (intro pool_ok_update) (simp_all add: pool_inv_def)
    have 5: "Returned \<in> set (threads s') \<longrightarrow> queue (url_queue s') = []"
      using I s' q by (auto simp: pool_inv_def dest!: in_set_update)
    from I 1 2 3 5 q show ?thesis by (simp add: pool_inv_def s')
  next
    case (Request url)
    let ?r = "try_except_else net sink url (out s)"
    from st i Request have s': "s' = s\<lparr>out := snd ?r, threads := (threads s)[i := TaskDone (fst ?r)]\<rparr>"
      by (simp add: get_status_step_def)
    have nt: "\<not> terminated (threads s ! i)" using Request by (simp add: terminated_def)
    have 1: "sum_list (map inflight (threads s')) = sum_list (map inflight (threads s))"
      using upd [of inflight "TaskDone (fst ?r)"] Request s' by simp
    have 2: "owed stream net s' + mset (stream (written net url)) = owed stream net s" for stream
      using upd [of "\<lambda>w. mset (expected stream net (holding w))" "TaskDone (fst ?r)"] Request s'
      by (simp add: owed_def)
    have 3: "pool_ok s'" unfolding s'
      using I nt i pool_ok_threads [of "s\<lparr>out := snd ?r\<rparr>" i "TaskDone (fst ?r)"]
      by (simp add: pool_inv_def)
    have 5: "Returned \<in> set (threads s') \<longrightarrow> queue (url_queue s') = []"
      using I s' by (auto simp: pool_inv_def dest!: in_set_update)
    have 6: "mset (stdout (out s')) + owed stdout net s' = mset (expected stdout net urls)"
      using I 2 [of stdout] by (simp add: pool_inv_def s' try_except_else_stdout ac_simps)
    have 7: "mset (stderr (out s')) + owed stderr net s' = mset (expected stderr net urls)"
      using I 2 [of stderr] by (simp add: pool_inv_def s' try_except_else_stderr ac_simps)
    from I 1 3 5 6 7 show ?thesis by (simp add: pool_inv_def s')
  next
    case (TaskDone raised)
    let ?w = "case raised of None \<Rightarrow> LoopTest | Some e \<Rightarrow> Raised e"
    have nt: "\<not> terminated (threads s ! i)" using TaskDone by (simp add: terminated_def)
    from task_done_possible [OF I i TaskDone] have pos: "unfinished_tasks (url_queue s) \<noteq> 0" .
    with st i TaskDone have s': "s' = s\<lparr>url_queue := (url_queue s)\<lparr>unfinished_tasks := unfinished_tasks (url_queue s) - 1\<rparr>,
        threads := (threads s)[i := ?w]\<rparr>"
      by (simp add: get_status_step_def q_task_done_def)
    have w0: "inflight ?w = 0" "holding ?w = []" "?w \<noteq> Returned"
      by (cases raised; simp)+
    have 1: "Suc (sum_list (map inflight (threads s'))) = sum_list (map inflight (threads s))"
      using upd [of inflight ?w] TaskDone s' w0 by simp
    have 2: "owed stream net s' = owed stream net s" for stream
      using upd [of "\<lambda>w. mset (expected stream net (holding w))" ?w] TaskDone s' w0
      by (simp add: owed_def)
    have 3: "pool_ok s'" unfolding s' using I nt i pos by (intro pool_ok_update) (simp_all add: pool_inv_def)
    have 5: "Returned \<in> set (threads s') \<longrightarrow> queue (url_queue s') = []"
      using I s' w0 by (auto simp: pool_inv_def dest!: in_set_update)
    from I 1 2 3 5 pos show ?thesis by (simp add: pool_inv_def s')
  next
    case Returned
    with st i show ?thesis by (simp add: get_status_step_def)
  next
    case (Raised e)
    with st i show ?thesis by (simp add: get_status_step_def)
  qed
qed

text \<open>While the streams accept every line, no worker ends with an exception.\<close>

lemma calm_main_step:
  assumes "calm s" and "check_website_status_step s = Some s'"
  shows "calm s'"
  using assms
  by (cases "main_pc s") (auto simp: calm_def check_website_status_step_def split: if_splits)

lemma calm_worker_step:
  assumes I: "pool_inv net urls s" and c: "calm s"
    and st: "get_status_step net accepting i s = Some s'"
  shows "calm s'"
proof -
  from st have i: "i < length (threads s)"
    by (simp add: get_status_step_def split: if_splits)
  show ?thesis
  proof (cases "threads s ! i")
    case LoopTest
    with st i c show ?thesis
      by (auto simp: get_status_step_def calm_def dest!: in_set_update split: if_splits)
  next
    case QueueGet
    with st i c show ?thesis
      by (auto simp: get_status_step_def calm_def q_get_def dest!: in_set_update split: list.splits)
  next
    case (Request url)
    with st i c show ?thesis
      by (auto simp: get_status_step_def calm_def try_except_else_accepting dest!: in_set_update)
  next
    case (TaskDone raised)
    from c i TaskDone have r: "raised = None"
      by (cases raised) (auto simp: calm_def dest: nth_mem)
    from task_done_possible [OF I i TaskDone] have "unfinished_tasks (url_queue s) \<noteq> 0" .
    with st i c TaskDone r show ?thesis
      by (auto simp: get_status_step_def calm_def q_task_done_def dest!: in_set_update)
  next
    case Returned
    with st i show ?thesis by (simp add: get_status_step_def)
  next
    case (Raised e)
    with st i show ?thesis by (simp add: get_status_step_def)
  qed
qed

section \<open>Every run is finite\<close>

lemma main_step_decreases:
  "check_website_status_step s = Some s' \<Longrightarrow> steps_left s' < steps_left s"
  by (cases "main_pc s") (auto simp: check_website_status_step_def steps_left_def split: if_splits)

lemma worker_step_decreases:
  assumes st: "get_status_step net sink i s = Some s'"
  shows "steps_left s' < steps_left s"
proof -
  from st have i: "i < length (threads s)"
    by (simp add: get_status_step_def split: if_splits)
  note upd = sum_list_map_update [OF i, of wpc_weight]
  show ?thesis
  proof (cases "threads s ! i")
    case LoopTest
    with st i upd [of Returned] upd [of QueueGet] show ?thesis
      by (auto simp: get_status_step_def steps_left_def split: if_splits)
  next
    case QueueGet
    with st i obtain url rest where q: "queue (url_queue s) = url # rest"
      and s': "s' = s\<lparr>url_queue := (url_queue s)\<lparr>queue := rest\<rparr>, threads := (threads s)[i := Request url]\<rparr>"
      by (auto simp: get_status_step_def q_get_def split: list.splits)
    with QueueGet upd [of "Request url"] show ?thesis
      by (simp add: steps_left_def)
  next
    case (Request url)
    with st i upd [of "TaskDone (fst (try_except_else net sink url (out s)))"] show ?thesis
      by (auto simp: get_status_step_def steps_left_def)
  next
    case (TaskDone raised)
    let ?w = "case raised of None \<Rightarrow> LoopTest | Some e \<Rightarrow> Raised e"
    have "wpc_weight ?w \<le> 2" by (cases raised) simp_all
    with TaskDone st i upd [of ?w] upd [of "Raised ValueError"] show ?thesis
      by (auto simp: get_status_step_def steps_left_def q_task_done_def split: if_splits)
  next
    case Returned
    with st i show ?thesis by (simp add: get_status_step_def)
  next
    case (Raised e)
    with st i show ?thesis by (simp add: get_status_step_def)
  qed
qed

lemma step_decreases: "step net sink a s = Some s' \<Longrightarrow> steps_left s' < steps_left s"
  by (cases a) (simp_all add: step_def main_step_decreases worker_step_decreases)

lemma exec_bounded:
  "exec net sink sched s = Some s' \<Longrightarrow> length sched + steps_left s' \<le> steps_left s"
proof (induction sched arbitrary: s)
  case Nil
  then show ?case by simp
next
  case (Cons a sched)
  from Cons.prems obtain s1 where 1: "step net sink a s = Some s1"
    and 2: "exec net sink sched s1 = Some s'"
    by (auto split: option.splits)
  from Cons.IH [OF 2] step_decreases [OF 1] show ?case by simp
qed

lemma steps_left_start: "steps_left (check_website_status_start (get_queue urls)) = 4 * length urls + 19"
  by (simp add: steps_left_def check_website_status_start_def get_queue_simps)

section \<open>What holds in every state of a run\<close>

lemma inv_step: "pool_inv net urls s \<Longrightarrow> step net sink a s = Some s' \<Longrightarrow> pool_inv net urls s'"
  by (cases a) (auto simp: step_def intro: inv_main_step inv_worker_step)

lemma inv_exec: "pool_inv net urls s \<Longrightarrow> exec net sink sched s = Some s' \<Longrightarrow> pool_inv net urls s'"
proof (induction sched arbitrary: s)
  case Nil
  then show ?case by simp
next
  case (Cons a sched)
  from Cons.prems obtain s1 where 1: "step net sink a s = Some s1"
    and 2: "exec net sink sched s1 = Some s'"
    by (auto split: option.splits)
  from Cons.IH [OF inv_step [OF Cons.prems(1) 1] 2] show ?case .
qed

lemma inv_reachable:
  "exec net sink sched (check_website_status_start (get_queue urls)) = Some s \<Longrightarrow> pool_inv net urls s"
  by (rule inv_exec [OF inv_start])

lemma calm_step:
  "pool_inv net urls s \<Longrightarrow> calm s \<Longrightarrow> step net accepting a s = Some s' \<Longrightarrow> calm s'"
  by (cases a) (auto simp: step_def intro: calm_main_step calm_worker_step)

lemma calm_exec:
  "pool_inv net urls s \<Longrightarrow> calm s \<Longrightarrow> exec net accepting sched s = Some s' \<Longrightarrow> calm s'"
proof (induction sched arbitrary: s)
  case Nil
  then show ?case by simp
next
  case (Cons a sched)
  from Cons.prems obtain s1 where 1: "step net accepting a s = Some s1"
    and 2: "exec net accepting sched s1 = Some s'"
    by (auto split: option.splits)
  from Cons.IH [OF inv_step [OF Cons.prems(1) 1] calm_step [OF Cons.prems(1,2) 1] 2]
  show ?case .
qed

lemma calm_reachable:
  "exec net accepting sched (check_website_status_start (get_queue urls)) = Some s \<Longrightarrow> calm s"
  by (rule calm_exec [OF inv_start]) (simp_all add: calm_def check_website_status_start_def)

lemma accepting_eq: "(\<forall>st issued. sink st issued = None) \<Longrightarrow> sink = accepting"
  by (auto simp: accepting_def fun_eq_iff)

section \<open>A run that can go no further\<close>

lemma drained_owed: "drained s \<Longrightarrow> owed stream net s = {#}"
proof -
  assume d: "drained s"
  have "list_all (\<lambda>w. inflight w = 0) ts \<Longrightarrow>
      sum_list (map (\<lambda>w. mset (expected stream net (holding w))) ts) = {#}" for ts
  proof (induction ts)
    case Nil
    show ?case by simp
  next
    case (Cons w ts)
    then show ?case by (cases w) simp_all
  qed
  with d show ?thesis by (simp add: owed_def drained_def)
qed

lemma drained_unfinished:
  assumes "pool_inv net urls s"
  shows "drained s \<longleftrightarrow> unfinished_tasks (url_queue s) = 0"
proof -
  have "sum_list (map inflight ts) = 0 \<longleftrightarrow> list_all (\<lambda>w. inflight w = 0) ts" for ts
    by (induction ts) auto
  with assms show ?thesis by (auto simp: pool_inv_def drained_def)
qed

lemma stuck_worker:
  assumes "stuck net sink s" and "i < length (threads s)"
  shows "get_status_step net sink i s = None"
proof -
  from assms(2) have "Worker i \<in> set (actors s)" by (simp add: actors_def)
  with assms(1) have "step net sink (Worker i) s = None" by (simp add: stuck_def list_all_iff)
  then show ?thesis by (simp add: step_def)
qed

lemma stuck_main: "stuck net sink s \<Longrightarrow> check_website_status_step s = None"
  by (simp add: stuck_def actors_def step_def)

lemma stuck_step: "stuck net sink s \<Longrightarrow> step net sink a s = None"
proof (cases a)
  case MainThread
  assume "stuck net sink s"
  from stuck_main [OF this] MainThread show ?thesis by (simp add: step_def)
next
  case (Worker i)
  assume st: "stuck net sink s"
  show ?thesis
  proof (cases "i < length (threads s)")
    case True
    from stuck_worker [OF st True] Worker show ?thesis by (simp add: step_def)
  next
    case False
    with Worker show ?thesis by (simp add: step_def get_status_step_def)
  qed
qed

lemma stuck_drained:
  assumes I: "pool_inv net urls s" and c: "calm s" and S: "stuck net sink s"
  shows "drained s \<and> (\<exists>k. main_pc s = ThreadJoin k \<or> main_pc s = Finished)"
proof -
  have w: "threads s ! i = QueueGet \<or> threads s ! i = Returned" if "i < length (threads s)" for i
  proof -
    from c that have "\<forall>e. threads s ! i \<noteq> Raised e" by (simp add: calm_def)
    with stuck_worker [OF S that] that show ?thesis
      by (cases "threads s ! i")
        (auto simp: get_status_step_def q_task_done_def split: if_splits)
  qed
  from stuck_main [OF S] have m: "\<forall>k. main_pc s \<noteq> Spawn k"
    by (auto simp: check_website_status_step_def split: if_splits)
  with I have len: "length (threads s) = 4"
    by (cases "main_pc s") (auto simp: pool_inv_def pool_ok_def)
  then have 0: "0 < length (threads s)" by simp
  have e: "queue (url_queue s) = []"
  proof -
    from w [OF 0] show ?thesis
    proof
      assume "threads s ! 0 = QueueGet"
      with stuck_worker [OF S 0] 0 show ?thesis
        by (auto simp: get_status_step_def q_get_def split: list.splits)
    next
      assume "threads s ! 0 = Returned"
      with 0 have "Returned \<in> set (threads s)" by (metis nth_mem)
      with I show ?thesis by (simp add: pool_inv_def)
    qed
  qed
  have "list_all (\<lambda>w. inflight w = 0) (threads s)"
    unfolding list_all_length using w by fastforce
  with e have d: "drained s" by (simp add: drained_def)
  with drained_unfinished [OF I] have "unfinished_tasks (url_queue s) = 0" by simp
  with stuck_main [OF S] m have "\<exists>k. main_pc s = ThreadJoin k \<or> main_pc s = Finished"
    by (cases "main_pc s") (auto simp: check_website_status_step_def q_join_ready_def split: if_splits)
  with d show ?thesis by simp
qed

lemma expected_lengths:
  "length (expected stdout net urls) + length (expected stderr net urls) = length urls"
proof (induction urls)
  case Nil
  show ?case by simp
next
  case (Cons u urls)
  with written_one_line [of net u] show ?case by simp
qed

lemma drained_outputs:
  assumes I: "pool_inv net urls s" and d: "drained s"
  shows "mset (stdout (out s)) = mset (expected stdout net urls)"
    and "mset (stderr (out s)) = mset (expected stderr net urls)"
    and "length (stdout (out s)) + length (stderr (out s)) = length urls"
proof -
  from I drained_owed [OF d] show 1: "mset (stdout (out s)) = mset (expected stdout net urls)"
    by (simp add: pool_inv_def)
  from I drained_owed [OF d] show 2: "mset (stderr (out s)) = mset (expected stderr net urls)"
    by (simp add: pool_inv_def)
  from 1 have "length (stdout (out s)) = length (expected stdout net urls)"
    by (rule mset_eq_length)
  moreover from 2 have "length (stderr (out s)) = length (expected stderr net urls)"
    by (rule mset_eq_length)
  ultimately show "length (stdout (out s)) + length (stderr (out s)) = length urls"
    using expected_lengths [of net urls] by simp
qed

section \<open>Concrete runs\<close>

lemmas run_simps = step_def get_status_step_def check_website_status_step_def
  check_website_status_start_def get_queue_def Queue_def q_put_def q_empty_def q_get_def
  q_task_done_def q_join_ready_def terminated_def try_except_else_def write_flush_def
  try_body_def raise_for_status_def accepting_def

lemma demo_run:
  "exec demo_net accepting demo_schedule (check_website_status_start (get_queue demo_urls)) = Some demo_final"
  by (simp add: demo_schedule_def demo_urls_def demo_final_def demo_net_def run_simps)

lemma demo_stuck: "stuck demo_net accepting demo_final"
  by (simp add: stuck_def actors_def demo_final_def run_simps upt_rec)

lemma waiting_run:
  "exec demo_net accepting waiting_schedule (check_website_status_start (get_queue demo_urls)) = Some waiting_state"
  by (simp add: waiting_schedule_def demo_urls_def waiting_state_def demo_net_def run_simps)

lemma hang_run:
  "exec demo_net accepting hang_schedule (check_website_status_start (get_queue [''http://example.com''])) = Some hang_final"
  by (simp add: hang_schedule_def hang_final_def demo_net_def run_simps)

lemma hang_stuck: "stuck demo_net accepting hang_final"
  by (simp add: stuck_def actors_def hang_final_def run_simps upt_rec)

lemma abort_run:
  "exec demo_net broken_pipe abort_schedule (check_website_status_start (get_queue failing_urls)) = Some abort_final"
  by (simp add: abort_schedule_def abort_final_def failing_urls_def demo_net_def broken_pipe_def run_simps)

lemma abort_stuck: "stuck demo_net broken_pipe abort_final"
  by (simp add: stuck_def actors_def abort_final_def run_simps upt_rec)

section \<open>The claims about the status checker\<close>

text \<open>
  Claim C1. A worker that holds a URL handles it in one of three ways, each with its exact
  line. When the GET returns a status outside 400..599, the line
  \<open>Successfully connected to <url>\<close> with a newline is passed to stdout and stderr is
  unchanged. When the status is in 400..599 (or the GET itself raised \<open>HTTPError\<close>), the
  line \<open>HTTP error occurred for <url>\<close> is passed to stderr and stdout is unchanged.
  For any other exception the line \<open>Error occurred for <url>\<close> is passed to stderr. In
  every case exactly one line is issued, whatever the streams do with it.
\<close>

theorem get_status_reports_outcome:
  assumes "i < length (threads s)" and "threads s ! i = Request url"
  shows "\<exists>s'. get_status_step net sink i s = Some s'
     \<and> (\<forall>code. net url = Inr code \<and> \<not> (400 \<le> code \<and> code < 600) \<longrightarrow>
           out s' = (out s)\<lparr>stdout := stdout (out s) @ [''Successfully connected to '' @ url @ [CHR 0x0A]]\<rparr>)
     \<and> (net url = Inl HTTPError \<or> (\<exists>code. net url = Inr code \<and> 400 \<le> code \<and> code < 600) \<longrightarrow>
           out s' = (out s)\<lparr>stderr := stderr (out s) @ [''HTTP error occurred for '' @ url @ [CHR 0x0A]]\<rparr>)
     \<and> (\<forall>e. net url = Inl e \<and> e \<noteq> HTTPError \<longrightarrow>
           out s' = (out s)\<lparr>stderr := stderr (out s) @ [''Error occurred for '' @ url @ [CHR 0x0A]]\<rparr>)
     \<and> length (stdout (out s')) + length (stderr (out s')) =
         Suc (length (stdout (out s)) + length (stderr (out s)))"
proof -
  let ?r = "try_except_else net sink url (out s)"
  let ?s' = "s\<lparr>out := snd ?r, threads := (threads s)[i := TaskDone (fst ?r)]\<rparr>"
  from assms have st: "get_status_step net sink i s = Some ?s'"
    by (simp add: get_status_step_def)
  have ok: "\<forall>code. net url = Inr code \<and> \<not> (400 \<le> code \<and> code < 600) \<longrightarrow>
      out ?s' = (out s)\<lparr>stdout := stdout (out s) @ [''Successfully connected to '' @ url @ [CHR 0x0A]]\<rparr>"
    by (simp add: try_except_else_def write_flush_def try_body_def raise_for_status_def)
  have http: "net url = Inl HTTPError \<or> (\<exists>code. net url = Inr code \<and> 400 \<le> code \<and> code < 600) \<longrightarrow>
      out ?s' = (out s)\<lparr>stderr := stderr (out s) @ [''HTTP error occurred for '' @ url @ [CHR 0x0A]]\<rparr>"
    by (auto simp: try_except_else_def write_flush_def try_body_def raise_for_status_def)
  have other: "\<forall>e. net url = Inl e \<and> e \<noteq> HTTPError \<longrightarrow>
      out ?s' = (out s)\<lparr>stderr := stderr (out s) @ [''Error occurred for '' @ url @ [CHR 0x0A]]\<rparr>"
    by (auto simp: try_except_else_def write_flush_def try_body_def split: exn.splits)
  have one: "length (stdout (out ?s')) + length (stderr (out ?s')) =
      Suc (length (stdout (out s)) + length (stderr (out s)))"
    using written_one_line [of net url]
    by (simp add: try_except_else_stdout try_except_else_stderr)
  from st ok http other one show ?thesis by blast
qed

theorem get_status_reports_outcome_witness:
  "(\<exists>s'. get_status_step demo_net accepting 0 (holding_state ''http://example.com'') = Some s'
      \<and> out s' = \<lparr>stdout = [''Successfully connected to http://example.com'' @ [CHR 0x0A]], stderr = []\<rparr>)
   \<and> (\<exists>s'. get_status_step demo_net accepting 0 (holding_state ''http://example.com/missing'') = Some s'
      \<and> out s' = \<lparr>stdout = [], stderr = [''HTTP error occurred for http://example.com/missing'' @ [CHR 0x0A]]\<rparr>)
   \<and> (\<exists>s'. get_status_step demo_net accepting 0 (holding_state ''not-a-url'') = Some s'
      \<and> out s' = \<lparr>stdout = [], stderr = [''Error occurred for not-a-url'' @ [CHR 0x0A]]\<rparr>)"
proof -
  have a: "0 < length (threads (holding_state u))" "threads (holding_state u) ! 0 = Request u" for u
    by (simp_all add: holding_state_def)
  have n: "demo_net ''http://example.com'' = Inr 200"
    "demo_net ''http://example.com/missing'' = Inr 404"
    "demo_net ''not-a-url'' = Inl InvalidURL"
    by (simp_all add: demo_net_def)
  have o: "out (holding_state u) = \<lparr>stdout = [], stderr = []\<rparr>" for u
    by (simp add: holding_state_def)
  from get_status_reports_outcome [where i = 0 and s = "holding_state ''http://example.com''"
      and url = "''http://example.com''" and net = demo_net and sink = accepting, OF a] n(1) o
  have 1: "\<exists>s'. get_status_step demo_net accepting 0 (holding_state ''http://example.com'') = Some s'
      \<and> out s' = \<lparr>stdout = [''Successfully connected to http://example.com'' @ [CHR 0x0A]], stderr = []\<rparr>"
    by auto
  from get_status_reports_outcome [where i = 0 and s = "holding_state ''http://example.com/missing''"
      and url = "''http://example.com/missing''" and net = demo_net and sink = accepting, OF a] n(2) o
  have 2: "\<exists>s'. get_status_step demo_net accepting 0 (holding_state ''http://example.com/missing'') = Some s'
      \<and> out s' = \<lparr>stdout = [], stderr = [''HTTP error occurred for http://example.com/missing'' @ [CHR 0x0A]]\<rparr>"
    by auto
  from get_status_reports_outcome [where i = 0 and s = "holding_state ''not-a-url''"
      and url = "''not-a-url''" and net = demo_net and sink = accepting, OF a] n(3) o
  have 3: "\<exists>s'. get_status_step demo_net accepting 0 (holding_state ''not-a-url'') = Some s'
      \<and> out s' = \<lparr>stdout = [], stderr = [''Error occurred for not-a-url'' @ [CHR 0x0A]]\<rparr>"
    by auto
  from 1 2 3 show ?thesis by blast
qed

text \<open>
  Claim C2. Handling one URL issues exactly one line. In every state of every run the
  lines issued so far to a stream, together with the lines owed for the URLs still in
  the queue or held by a worker, are as a multiset the lines expected for the URL list:
  no URL is lost and none is handed out twice. When \<open>check_website_status\<close> has
  returned, each stream has been passed exactly its expected lines, there are as many
  lines as URLs, the queue is empty and every worker has terminated; every worker has
  returned when the streams accept every line.
\<close>

theorem one_output_line_per_url:
  assumes "exec net sink sched (check_website_status_start (get_queue urls)) = Some s"
  shows "(\<forall>url. length (stdout (written net url)) + length (stderr (written net url)) = 1)
     \<and> mset (stdout (out s)) + owed stdout net s = mset (expected stdout net urls)
     \<and> mset (stderr (out s)) + owed stderr net s = mset (expected stderr net urls)
     \<and> (main_pc s = Finished \<longrightarrow>
           mset (stdout (out s)) = mset (expected stdout net urls)
         \<and> mset (stderr (out s)) = mset (expected stderr net urls)
         \<and> length (stdout (out s)) + length (stderr (out s)) = length urls
         \<and> queue (url_queue s) = []
         \<and> list_all terminated (threads s)
         \<and> ((\<forall>st issued. sink st issued = None) \<longrightarrow> list_all (\<lambda>w. w = Returned) (threads s)))"
proof -
  note I = inv_reachable [OF assms]
  have a: "\<forall>url. length (stdout (written net url)) + length (stderr (written net url)) = 1"
    by (simp add: written_one_line)
  from I have b: "mset (stdout (out s)) + owed stdout net s = mset (expected stdout net urls)"
    and c: "mset (stderr (out s)) + owed stderr net s = mset (expected stderr net urls)"
    by (simp_all add: pool_inv_def)
  have d: "main_pc s = Finished \<longrightarrow>
           mset (stdout (out s)) = mset (expected stdout net urls)
         \<and> mset (stderr (out s)) = mset (expected stderr net urls)
         \<and> length (stdout (out s)) + length (stderr (out s)) = length urls
         \<and> queue (url_queue s) = []
         \<and> list_all terminated (threads s)
         \<and> ((\<forall>st issued. sink st issued = None) \<longrightarrow> list_all (\<lambda>w. w = Returned) (threads s))"
  proof
    assume f: "main_pc s = Finished"
    with I have u: "unfinished_tasks (url_queue s) = 0" and t: "list_all terminated (threads s)"
      by (auto simp: pool_inv_def pool_ok_def)
    from u drained_unfinished [OF I] have dr: "drained s" by simp
    have r: "(\<forall>st issued. sink st issued = None) \<longrightarrow> list_all (\<lambda>w. w = Returned) (threads s)"
    proof
      assume "\<forall>st issued. sink st issued = None"
      then have "sink = accepting" by (rule accepting_eq)
      with assms have "calm s" by (simp add: calm_reachable)
      with t have "w = Returned" if "w \<in> set (threads s)" for w
        using that by (cases w) (auto simp: list_all_iff terminated_def calm_def)
      then show "list_all (\<lambda>w. w = Returned) (threads s)"
        by (simp add: list_all_iff)
    qed
    from dr have "queue (url_queue s) = []" by (simp add: drained_def)
    with drained_outputs [OF I dr] t r
    show "mset (stdout (out s)) = mset (expected stdout net urls)
         \<and> mset (stderr (out s)) = mset (expected stderr net urls)
         \<and> length (stdout (out s)) + length (stderr (out s)) = length urls
         \<and> queue (url_queue s) = []
         \<and> list_all terminated (threads s)
         \<and> ((\<forall>st issued. sink st issued = None) \<longrightarrow> list_all (\<lambda>w. w = Returned) (threads s))"
      by simp
  qed
  from a b c d show ?thesis by blast
qed

theorem one_output_line_per_url_witness:
  "exec demo_net accepting demo_schedule (check_website_status_start (get_queue demo_urls)) = Some demo_final
   \<and> main_pc demo_final = Finished
   \<and> mset (stdout (out demo_final)) = mset (expected stdout demo_net demo_urls)
   \<and> mset (stderr (out demo_final)) = mset (expected stderr demo_net demo_urls)
   \<and> length (stdout (out demo_final)) + length (stderr (out demo_final)) = 3
   \<and> list_all (\<lambda>w. w = Returned) (threads demo_final)"
proof -
  have f: "main_pc demo_final = Finished" by (simp add: demo_final_def)
  have l: "length demo_urls = 3" by (simp add: demo_urls_def)
  have k: "\<forall>st issued. accepting st issued = None" by (simp add: accepting_def)
  from one_output_line_per_url [OF demo_run] f l k demo_run show ?thesis by simp
qed

text \<open>
  Claim C3, as stated, fails: the lines of the \<open>except\<close> and \<open>else\<close> clauses are written
  outside the \<open>try\<close> body, so an exception of \<open>write\<close> or \<open>flush\<close> leaves \<open>get_status\<close>
  after the \<open>finally\<close> clause. With a standard error stream that refuses every line and
  five URLs whose GET fails, each of the four workers reports one URL and ends with the
  exception of the write; the fifth URL stays in the queue, no thread can act, and the
  main thread waits in \<open>url_queue.join()\<close>.
\<close>

theorem url_failure_escapes_on_refused_write:
  "demo_net ''u1'' = Inl InvalidURL
   \<and> exec demo_net broken_pipe abort_schedule (check_website_status_start (get_queue failing_urls))
       = Some abort_final
   \<and> threads abort_final = [Raised OSError, Raised OSError, Raised OSError, Raised OSError]
   \<and> queue (url_queue abort_final) = [''u5'']
   \<and> main_pc abort_final = QueueJoin
   \<and> stuck demo_net broken_pipe abort_final"
  using abort_run abort_stuck by (simp add: abort_final_def demo_net_def)

text \<open>
  Claim C3, amended. Provided that the streams accept every line (no \<open>write\<close> or
  \<open>flush\<close> raises), whatever the network answers for the URLs: in every state of every
  run no worker has terminated with an exception; a worker that holds a URL can always
  handle it, which changes no other thread and neither the queue nor the main thread; no
  run has more than \<open>4 * length urls + 19\<close> actions; and in a state where no thread can
  act any more, the queue is drained and each stream has exactly its expected lines, so
  every URL has been handled.
\<close>

theorem url_failures_are_contained:
  assumes "exec net sink sched (check_website_status_start (get_queue urls)) = Some s"
    and "\<forall>st issued. sink st issued = None"
  shows "(\<forall>w \<in> set (threads s). \<forall>e. w \<noteq> Raised e)
     \<and> (\<forall>i url. i < length (threads s) \<and> threads s ! i = Request url \<longrightarrow>
          (\<exists>s'. get_status_step net sink i s = Some s' \<and> threads s' = (threads s)[i := TaskDone None]
             \<and> url_queue s' = url_queue s \<and> main_pc s' = main_pc s))
     \<and> length sched \<le> 4 * length urls + 19
     \<and> (stuck net sink s \<longrightarrow>
           drained s
         \<and> mset (stdout (out s)) = mset (expected stdout net urls)
         \<and> mset (stderr (out s)) = mset (expected stderr net urls))"
proof -
  note I = inv_reachable [OF assms(1)]
  from assms(2) have acc: "sink = accepting" by (rule accepting_eq)
  with assms(1) have c: "calm s" by (simp add: calm_reachable)
  then have a: "\<forall>w \<in> set (threads s). \<forall>e. w \<noteq> Raised e" by (simp add: calm_def)
  have b: "\<forall>i url. i < length (threads s) \<and> threads s ! i = Request url \<longrightarrow>
          (\<exists>s'. get_status_step net sink i s = Some s' \<and> threads s' = (threads s)[i := TaskDone None]
             \<and> url_queue s' = url_queue s \<and> main_pc s' = main_pc s)"
    by (simp add: get_status_step_def acc try_except_else_accepting)
  from exec_bounded [OF assms(1)] have d: "length sched \<le> 4 * length urls + 19"
    by (simp add: steps_left_start)
  have e: "stuck net sink s \<longrightarrow>
           drained s
         \<and> mset (stdout (out s)) = mset (expected stdout net urls)
         \<and> mset (stderr (out s)) = mset (expected stderr net urls)"
  proof
    assume "stuck net sink s"
    with stuck_drained [OF I c] have dr: "drained s" by simp
    with drained_outputs [OF I dr]
    show "drained s
         \<and> mset (stdout (out s)) = mset (expected stdout net urls)
         \<and> mset (stderr (out s)) = mset (expected stderr net urls)" by simp
  qed
  from a b d e show ?thesis by blast
qed

theorem url_failures_are_contained_witness:
  "demo_net ''not-a-url'' = Inl InvalidURL
   \<and> exec demo_net accepting demo_schedule (check_website_status_start (get_queue demo_urls)) = Some demo_final
   \<and> threads demo_final = [Returned, Returned, Returned, Returned]
   \<and> stuck demo_net accepting demo_final
   \<and> drained demo_final
   \<and> mset (stderr (out demo_final)) = mset (expected stderr demo_net demo_urls)
   \<and> length demo_schedule \<le> 4 * length demo_urls + 19"
proof -
  have n: "demo_net ''not-a-url'' = Inl InvalidURL" by (simp add: demo_net_def)
  have k: "\<forall>st issued. accepting st issued = None" by (simp add: accepting_def)
  have t: "threads demo_final = [Returned, Returned, Returned, Returned]"
    by (simp add: demo_final_def)
  from url_failures_are_contained [OF demo_run k] demo_stuck n t demo_run show ?thesis by simp
qed



text \<open>
  Claim C5 says that the run terminates for every finite list. The code does not: with
  the single URL \<open>http://example.com\<close>, when workers 0 and 1 both find the queue
  non-empty before either calls \<open>q.get()\<close>, worker 0 takes the URL and worker 1 waits in
  \<open>q.get()\<close> for ever. The URL is reported and \<open>url_queue.join()\<close> returns, but the main
  thread then waits in \<open>thread.join()\<close> for worker 1, and from that state no thread can
  ever act again.
\<close>

theorem check_website_status_can_hang:
  "exec demo_net accepting hang_schedule (check_website_status_start (get_queue [''http://example.com''])) = Some hang_final
   \<and> stuck demo_net accepting hang_final
   \<and> (\<forall>a sched. exec demo_net accepting (a # sched) hang_final = None)
   \<and> main_pc hang_final = ThreadJoin 1
   \<and> threads hang_final = [Returned, QueueGet, Returned, Returned]
   \<and> queue (url_queue hang_final) = []
   \<and> stdout (out hang_final) = [''Successfully connected to http://example.com'' @ [CHR 0x0A]]"
  using hang_run hang_stuck stuck_step [OF hang_stuck] by (simp add: hang_final_def)

text \<open>
  Claim C6. In every state of every run in which the main thread stands in
  \<open>url_queue.join()\<close>, the join can return exactly when the queue is empty and no worker
  stands between \<open>q.get()\<close> and \<open>q.task_done()\<close>; and whenever the main thread is past
  the join, every item has been dequeued and acknowledged, and one line per URL has been
  issued.
\<close>

theorem queue_join_waits_for_every_item:
  assumes "exec net sink sched (check_website_status_start (get_queue urls)) = Some s"
  shows "(main_pc s = QueueJoin \<longrightarrow> (check_website_status_step s \<noteq> None \<longleftrightarrow> drained s))
     \<and> ((\<exists>k. main_pc s = ThreadJoin k) \<or> main_pc s = Finished \<longrightarrow>
           drained s \<and> unfinished_tasks (url_queue s) = 0
         \<and> length (stdout (out s)) + length (stderr (out s)) = length urls)"
proof -
  note I = inv_reachable [OF assms]
  have a: "main_pc s = QueueJoin \<longrightarrow> (check_website_status_step s \<noteq> None \<longleftrightarrow> drained s)"
    using drained_unfinished [OF I]
    by (simp add: check_website_status_step_def q_join_ready_def)
  have b: "(\<exists>k. main_pc s = ThreadJoin k) \<or> main_pc s = Finished \<longrightarrow>
           drained s \<and> unfinished_tasks (url_queue s) = 0
         \<and> length (stdout (out s)) + length (stderr (out s)) = length urls"
  proof
    assume "(\<exists>k. main_pc s = ThreadJoin k) \<or> main_pc s = Finished"
    with I have u: "unfinished_tasks (url_queue s) = 0"
      by (auto simp: pool_inv_def pool_ok_def)
    with drained_unfinished [OF I] have d: "drained s" by simp
    from d u drained_outputs(3) [OF I d]
    show "drained s \<and> unfinished_tasks (url_queue s) = 0
         \<and> length (stdout (out s)) + length (stderr (out s)) = length urls" by simp
  qed
  from a b show ?thesis ..
qed

theorem queue_join_waits_for_every_item_witness:
  "exec demo_net accepting waiting_schedule (check_website_status_start (get_queue demo_urls)) = Some waiting_state
   \<and> main_pc waiting_state = QueueJoin
   \<and> check_website_status_step waiting_state = None
   \<and> \<not> drained waiting_state
   \<and> exec demo_net accepting demo_schedule (check_website_status_start (get_queue demo_urls)) = Some demo_final
   \<and> main_pc demo_final = Finished
   \<and> drained demo_final
   \<and> length (stdout (out demo_final)) + length (stderr (out demo_final)) = length demo_urls"
proof -
  have w: "main_pc waiting_state = QueueJoin" "\<not> drained waiting_state"
    by (simp_all add: waiting_state_def drained_def)
  have f: "main_pc demo_final = Finished" by (simp add: demo_final_def)
  from queue_join_waits_for_every_item [OF waiting_run] w
  have 1: "check_website_status_step waiting_state = None" by blast
  from queue_join_waits_for_every_item [OF demo_run] f
  have 2: "drained demo_final
      \<and> length (stdout (out demo_final)) + length (stderr (out demo_final)) = length demo_urls"
    by blast
  from waiting_run demo_run w f 1 2 show ?thesis by blast
qed

text \<open>
  Claim C7, as stated, fails: a failure to open the file is not the only failure that
  aborts the run. The file \<open>urls.bin\<close> opens, iterating over it raises
  \<open>UnicodeDecodeError\<close>, and \<open>main\<close> ends with that exception.
\<close>

theorem opened_source_aborts_run:
  "demo_files ''urls.bin'' = Unreadable UnicodeDecodeError
   \<and> load_urls_from_file demo_files ''urls.bin'' = Inl UnicodeDecodeError
   \<and> main demo_files ''urls.bin'' = Inl UnicodeDecodeError"
  by (simp add: main_def load_urls_from_file_def demo_files_def)

text \<open>
  Claim C7, amended. When the file cannot be opened, or opens and cannot be read,
  \<open>load_urls_from_file\<close> raises the exception of \<open>open\<close> or of the iteration, and
  \<open>main\<close> ends with that exception before it has built a queue or started a thread.
  Nothing else makes \<open>main\<close> fail: it ends with an exception only in these two cases, for
  a file that can be read it starts the pool on the queue of the trimmed lines, and no
  action of a worker, also one that ends the worker with an exception, moves the main
  thread.
\<close>

theorem unloadable_source_aborts_run:
  "(\<forall>e. files input = Unopenable e \<or> files input = Unreadable e \<longrightarrow>
       load_urls_from_file files input = Inl e \<and> main files input = Inl e)
   \<and> (\<forall>e. main files input = Inl e \<longrightarrow> files input = Unopenable e \<or> files input = Unreadable e)
   \<and> (\<forall>lines. files input = Readable lines \<longrightarrow>
         main files input = Inr (check_website_status_start (get_queue (map strip lines))))
   \<and> (\<forall>net sink i s s'. get_status_step net sink i s = Some s' \<longrightarrow> main_pc s' = main_pc s)"
proof -
  have a: "\<forall>e. files input = Unopenable e \<or> files input = Unreadable e \<longrightarrow>
       load_urls_from_file files input = Inl e \<and> main files input = Inl e"
    by (auto simp: main_def load_urls_from_file_def)
  have b: "\<forall>e. main files input = Inl e \<longrightarrow> files input = Unopenable e \<or> files input = Unreadable e"
    by (auto simp: main_def load_urls_from_file_def split: source_file.splits)
  have c: "\<forall>lines. files input = Readable lines \<longrightarrow>
         main files input = Inr (check_website_status_start (get_queue (map strip lines)))"
    by (simp add: main_def load_urls_from_file_def)
  have d: "\<forall>net sink i s s'. get_status_step net sink i s = Some s' \<longrightarrow> main_pc s' = main_pc s"
    by (auto simp: get_status_step_def q_get_def q_task_done_def
        split: if_splits wpc.splits list.splits option.splits)
  from a b c d show ?thesis by blast
qed

theorem unloadable_source_aborts_run_witness:
  "demo_files ''missing.txt'' = Unopenable OSError
   \<and> main demo_files ''missing.txt'' = Inl OSError
   \<and> demo_files [CHR 0x00] = Unopenable ValueError
   \<and> main demo_files [CHR 0x00] = Inl ValueError
   \<and> demo_files ''urls.bin'' = Unreadable UnicodeDecodeError
   \<and> main demo_files ''urls.bin'' = Inl UnicodeDecodeError
   \<and> main demo_files ''urls.txt'' = Inr (check_website_status_start (get_queue demo_urls))"
proof -
  have f: "demo_files ''missing.txt'' = Unopenable OSError"
    "demo_files [CHR 0x00] = Unopenable ValueError"
    "demo_files ''urls.bin'' = Unreadable UnicodeDecodeError"
    "demo_files ''urls.txt'' =
       Readable [''http://example.com'' @ [CHR 0x0A], ''  not-a-url '' @ [CHR 0x0A], [CHR 0x0A]]"
    by (simp_all add: demo_files_def)
  have u: "map strip [''http://example.com'' @ [CHR 0x0A], ''  not-a-url '' @ [CHR 0x0A], [CHR 0x0A]]
      = demo_urls"
    by (simp add: demo_urls_def strip_def isspace_def whitespace_def)
  from unloadable_source_aborts_run [of demo_files "''missing.txt''"] f(1)
  have 1: "main demo_files ''missing.txt'' = Inl OSError" by blast
  from unloadable_source_aborts_run [of demo_files "[CHR 0x00]"] f(2)
  have 2: "main demo_files [CHR 0x00] = Inl ValueError" by blast
  from unloadable_source_aborts_run [of demo_files "''urls.bin''"] f(3)
  have 3: "main demo_files ''urls.bin'' = Inl UnicodeDecodeError" by blast
  from unloadable_source_aborts_run [of demo_files "''urls.txt''"] f(4) u
  have 4: "main demo_files ''urls.txt'' = Inr (check_website_status_start (get_queue demo_urls))"
    by auto
  from f 1 2 3 4 show ?thesis by simp
qed

text \<open>
  Claim C8. When the file can be read, \<open>load_urls_from_file\<close> returns one item per
  line, in order: item \<open>i\<close> is line \<open>i\<close> with the whitespace on both sides removed
  (the line is whitespace, the item, whitespace; a non-empty item neither starts nor
  ends with whitespace). No line is left out: a blank line gives the empty string. The
  queue built by \<open>get_queue\<close> holds the items in the same order, with one unfinished
  task per line.
\<close>

theorem load_urls_from_file_keeps_every_line:
  assumes "files filename = Readable lines"
  shows "\<exists>urls. load_urls_from_file files filename = Inr urls
     \<and> length urls = length lines
     \<and> (\<forall>i<length lines.
           urls ! i = strip (lines ! i)
         \<and> (\<exists>a b. lines ! i = a @ urls ! i @ b \<and> list_all isspace a \<and> list_all isspace b)
         \<and> (urls ! i \<noteq> [] \<longrightarrow> \<not> isspace (hd (urls ! i)) \<and> \<not> isspace (last (urls ! i)))
         \<and> (list_all isspace (lines ! i) \<longrightarrow> urls ! i = []))
     \<and> queue (get_queue urls) = urls
     \<and> unfinished_tasks (get_queue urls) = length lines"
proof -
  let ?urls = "map strip lines"
  from assms have l: "load_urls_from_file files filename = Inr ?urls"
    by (simp add: load_urls_from_file_def)
  have each: "\<forall>i<length lines.
           ?urls ! i = strip (lines ! i)
         \<and> (\<exists>a b. lines ! i = a @ ?urls ! i @ b \<and> list_all isspace a \<and> list_all isspace b)
         \<and> (?urls ! i \<noteq> [] \<longrightarrow> \<not> isspace (hd (?urls ! i)) \<and> \<not> isspace (last (?urls ! i)))
         \<and> (list_all isspace (lines ! i) \<longrightarrow> ?urls ! i = [])"
    using strip_decompose strip_hd strip_last strip_blank by simp
  have q: "queue (get_queue ?urls) = ?urls" "unfinished_tasks (get_queue ?urls) = length lines"
    by (simp_all add: get_queue_simps)
  from l each q show ?thesis by (intro exI [of _ ?urls]) simp
qed

theorem load_urls_from_file_keeps_every_line_witness:
  "demo_files ''urls.txt'' = Readable [''http://example.com'' @ [CHR 0x0A], ''  not-a-url '' @ [CHR 0x0A], [CHR 0x0A]]
   \<and> load_urls_from_file demo_files ''urls.txt'' = Inr [''http://example.com'', ''not-a-url'', []]
   \<and> queue (get_queue [''http://example.com'', ''not-a-url'', []]) = [''http://example.com'', ''not-a-url'', []]"
proof -
  have f: "demo_files ''urls.txt'' = Readable [''http://example.com'' @ [CHR 0x0A], ''  not-a-url '' @ [CHR 0x0A], [CHR 0x0A]]"
    by (simp add: demo_files_def)
  from load_urls_from_file_keeps_every_line [where files = demo_files and filename = "''urls.txt''", OF f]
  obtain urls
    where l: "load_urls_from_file demo_files ''urls.txt'' = Inr urls"
      and q: "queue (get_queue urls) = urls" by blast
  from l have u: "urls = [''http://example.com'', ''not-a-url'', []]"
    by (simp add: load_urls_from_file_def demo_files_def strip_def isspace_def whitespace_def)
  from f l q u show ?thesis by simp
qed

text \<open>
  Claim C9. \<open>check_website_status\<close> takes the queue and nothing else; in every state
  of every run at most 4 worker threads exist, after \<open>k\<close> rounds of the spawning
  loop exactly \<open>k\<close> of them, and from the end of that loop on exactly 4.
\<close>

theorem pool_runs_four_workers:
  assumes "exec net sink sched (check_website_status_start (get_queue urls)) = Some s"
  shows "length (threads s) \<le> 4
     \<and> (\<forall>k. main_pc s = Spawn k \<longrightarrow> length (threads s) = k)
     \<and> ((\<forall>k. main_pc s \<noteq> Spawn k) \<longrightarrow> length (threads s) = 4)"
proof -
  from inv_reachable [OF assms] have "pool_ok s" by (simp add: pool_inv_def)
  then show ?thesis by (cases "main_pc s") (simp_all add: pool_ok_def)
qed

theorem pool_runs_four_workers_witness:
  "exec demo_net accepting demo_schedule (check_website_status_start (get_queue demo_urls)) = Some demo_final
   \<and> main_pc demo_final = Finished
   \<and> length (threads demo_final) = 4"
  using pool_runs_four_workers [OF demo_run] demo_run by (simp add: demo_final_def)

end
